theory Spec2Isabelle
  imports Complex_Main "HOL-Library.AList"
begin

section \<open>Data model of \<^verbatim>\<open>pagerank.py\<close>\<close>

text \<open>
  The corpus is a Python \<^verbatim>\<open>dict\<close> from a page to the \<^verbatim>\<open>set\<close> of pages it links to.
  A dict is an association list in insertion order; reading a key is \<open>map_of\<close>, the
  assignment \<^verbatim>\<open>m[k] = v\<close> is \<open>AList.update\<close> (an existing key keeps its place, a new
  key goes to the end). A Python set is the list of its elements in the order a
  \<^verbatim>\<open>for\<close> loop visits them. That a dict has no key twice and a set no element twice is
  \<open>wf_corpus\<close>. Python floats are modelled by exact rationals: the theorems below are
  about the arithmetic the program writes down, not about rounding.
\<close>

datatype py_error = KeyError | IndexError | ZeroDivisionError | ValueError

type_synonym 'p corpus = "('p \<times> 'p list) list"

type_synonym 'p ranks = "('p \<times> rat) list"

definition dict_keys :: "('k \<times> 'v) list \<Rightarrow> 'k list" where
  "dict_keys m = map fst m"

definition dict_values :: "('k \<times> 'v) list \<Rightarrow> 'v list" where
  "dict_values m = map snd m"

text \<open>\<^verbatim>\<open>m[k]\<close> as an expression: a missing key raises \<^verbatim>\<open>KeyError\<close>.\<close>

definition getitem :: "('k \<times> 'v) list \<Rightarrow> 'k \<Rightarrow> py_error + 'v" where
  "getitem m k = (case map_of m k of None \<Rightarrow> Inl KeyError | Some v \<Rightarrow> Inr v)"

definition wf_corpus :: "'p corpus \<Rightarrow> bool" where
  "wf_corpus corpus \<longleftrightarrow>
     distinct (dict_keys corpus) \<and> list_all (\<lambda>(p, links). distinct links) corpus"

text \<open>The reference invariant of the graph: every link target is a page of the corpus.\<close>

definition ref_inv :: "'p corpus \<Rightarrow> bool" where
  "ref_inv corpus \<longleftrightarrow>
     list_all (\<lambda>(p, links). list_all (\<lambda>q. q \<in> set (dict_keys corpus)) links) corpus"

section \<open>\<^verbatim>\<open>transition_model\<close>\<close>

text \<open>
  \<^verbatim>\<open>for link in links: prob[link] += damping_factor / len(links)\<close>, with
  \<open>c = damping_factor / len(links)\<close>. Reading \<^verbatim>\<open>prob[link]\<close> raises \<^verbatim>\<open>KeyError\<close> when
  the link is not a page of the corpus.
\<close>

fun add_links :: "'p ranks \<Rightarrow> rat \<Rightarrow> 'p list \<Rightarrow> py_error + 'p ranks" where
  "add_links prob c [] = Inr prob"
| "add_links prob c (link # links) =
     (case getitem prob link of
        Inl e \<Rightarrow> Inl e
      | Inr v \<Rightarrow> add_links (AList.update link (v + c) prob) c links)"

text \<open>
  No division of \<^verbatim>\<open>transition_model\<close> can raise: \<^verbatim>\<open>corpus[page]\<close> has succeeded
  before \<open>N\<close> divides, so \<open>N \<ge> 1\<close>, and \<^verbatim>\<open>len(links)\<close> divides only in the branch where
  \<^verbatim>\<open>links\<close> is non-empty.
\<close>

definition transition_model :: "'p corpus \<Rightarrow> 'p \<Rightarrow> rat \<Rightarrow> py_error + 'p ranks" where
  "transition_model corpus page damping_factor =
     (let N = length corpus in
      case getitem corpus page of
        Inl e \<Rightarrow> Inl e
      | Inr links \<Rightarrow>
          if links \<noteq> [] then
            add_links (map (\<lambda>p. (p, (1 - damping_factor) / of_nat N)) (dict_keys corpus))
              (damping_factor / of_nat (length links)) links
          else Inr (map (\<lambda>p. (p, 1 / of_nat N)) (dict_keys corpus)))"

section \<open>The random source\<close>

text \<open>
  \<^verbatim>\<open>sample_pagerank\<close> draws from the process-wide generator of Python's \<^verbatim>\<open>random\<close>
  module. The generator is modelled by the sequence of uniform variates of \<open>[0, 1)\<close> it
  is going to deliver; a draw reads the head of the sequence and leaves the tail as the
  new state. \<^verbatim>\<open>random.choice\<close> and \<^verbatim>\<open>random.choices\<close> are library code, modelled after
  the library. \<^verbatim>\<open>random.choice(seq)\<close> raises \<^verbatim>\<open>IndexError\<close> on an empty sequence and
  otherwise returns the element at a uniformly drawn index, here the index
  \<open>\<lfloor>u * len(seq)\<rfloor>\<close> of one variate \<open>u\<close>.
  \<^verbatim>\<open>random.choices(population, weights, k=1)\<close> accumulates the weights, raises
  \<^verbatim>\<open>ValueError\<close> when their number differs from the population's, \<^verbatim>\<open>IndexError\<close> when
  there is none and \<^verbatim>\<open>ValueError\<close> when their total is not positive; then it returns
  \<^verbatim>\<open>population[bisect(cum_weights, random() * total, 0, n - 1)]\<close>, where \<^verbatim>\<open>bisect\<close> is
  the binary search \<^verbatim>\<open>bisect_right\<close> of the module \<^verbatim>\<open>bisect\<close>.
\<close>

type_synonym rng = "nat \<Rightarrow> rat"

definition wf_rng :: "rng \<Rightarrow> bool" where
  "wf_rng g \<longleftrightarrow> (\<forall>i. 0 \<le> g i \<and> g i < 1)"

definition rng_tail :: "rng \<Rightarrow> rng" where
  "rng_tail g = (\<lambda>i. g (Suc i))"

definition random_choice :: "'a list \<Rightarrow> rng \<Rightarrow> py_error + ('a \<times> rng)" where
  "random_choice seq g =
     (if seq = [] then Inl IndexError
      else Inr (seq ! nat \<lfloor>g 0 * of_nat (length seq)\<rfloor>, rng_tail g))"

fun accumulate :: "rat \<Rightarrow> rat list \<Rightarrow> rat list" where
  "accumulate acc [] = []"
| "accumulate acc (w # ws) = (acc + w) # accumulate (acc + w) ws"

function bisect_right :: "rat list \<Rightarrow> rat \<Rightarrow> nat \<Rightarrow> nat \<Rightarrow> nat" where
  "bisect_right a x lo hi =
     (if lo < hi then
        (let mid = (lo + hi) div 2 in
         if x < a ! mid then bisect_right a x lo mid else bisect_right a x (mid + 1) hi)
      else lo)"
  by pat_completeness auto
termination
  by (relation "measure (\<lambda>(a, x, lo, hi). hi - lo)") auto

declare bisect_right.simps [simp del]

definition random_choices :: "'a list \<Rightarrow> rat list \<Rightarrow> rng \<Rightarrow> py_error + ('a \<times> rng)" where
  "random_choices population weights g =
     (let cum_weights = accumulate 0 weights; n = length population in
      if length cum_weights \<noteq> n then Inl ValueError
      else if cum_weights = [] then Inl IndexError
      else
        let total = last cum_weights in
        if total \<le> 0 then Inl ValueError
        else Inr (population ! bisect_right cum_weights (g 0 * total) 0 (n - 1), rng_tail g))"

section \<open>\<^verbatim>\<open>sample_pagerank\<close>\<close>

text \<open>
  The body of \<^verbatim>\<open>for i in range(n)\<close>, run \<open>i\<close> more times: count the current page, ask
  \<^verbatim>\<open>transition_model\<close> for its distribution, draw the next page from it.
\<close>

fun sample_loop ::
  "'p corpus \<Rightarrow> rat \<Rightarrow> nat \<Rightarrow> ('p \<times> int) list \<Rightarrow> 'p \<Rightarrow> rng \<Rightarrow>
   py_error + (('p \<times> int) list \<times> 'p \<times> rng)" where
  "sample_loop corpus damping_factor 0 counts page g = Inr (counts, page, g)"
| "sample_loop corpus damping_factor (Suc i) counts page g =
     (case getitem counts page of
        Inl e \<Rightarrow> Inl e
      | Inr c \<Rightarrow>
          (case transition_model corpus page damping_factor of
             Inl e \<Rightarrow> Inl e
           | Inr probs \<Rightarrow>
               (case random_choices (dict_keys probs) (dict_values probs) g of
                  Inl e \<Rightarrow> Inl e
                | Inr (page', g') \<Rightarrow>
                    sample_loop corpus damping_factor i
                      (AList.update page (c + 1) counts) page' g')))"

text \<open>
  \<^verbatim>\<open>range(n)\<close> is empty for \<open>n \<le> 0\<close>. The final comprehension divides each count by
  \<open>n\<close>: with \<open>n = 0\<close> the first division raises \<^verbatim>\<open>ZeroDivisionError\<close>, unless there is
  no count at all. The result is the rank dict together with the generator's new state.
\<close>

definition sample_pagerank ::
  "'p corpus \<Rightarrow> rat \<Rightarrow> int \<Rightarrow> rng \<Rightarrow> py_error + ('p ranks \<times> rng)" where
  "sample_pagerank corpus damping_factor n g =
     (let counts = map (\<lambda>page. (page, 0)) (dict_keys corpus);
          pages = dict_keys corpus
      in case random_choice pages g of
           Inl e \<Rightarrow> Inl e
         | Inr (page, g1) \<Rightarrow>
             (case sample_loop corpus damping_factor (nat n) counts page g1 of
                Inl e \<Rightarrow> Inl e
              | Inr (counts', page', g2) \<Rightarrow>
                  if counts' \<noteq> [] \<and> n = 0 then Inl ZeroDivisionError
                  else Inr (map (\<lambda>(page, count). (page, of_int count / of_int n)) counts', g2)))"

section \<open>\<^verbatim>\<open>iterate_pagerank\<close>\<close>

text \<open>
  \<^verbatim>\<open>for page in corpus: if not corpus[page]: corpus[page] = set(corpus.keys())\<close>.
  The loop assigns into the caller's dict; the keys it walks are those of the dict at
  entry (an assignment to an existing key does not change the key order).
\<close>

fun normalize_loop :: "'p list \<Rightarrow> 'p corpus \<Rightarrow> py_error + 'p corpus" where
  "normalize_loop [] corpus = Inr corpus"
| "normalize_loop (page # pages) corpus =
     (case getitem corpus page of
        Inl e \<Rightarrow> Inl e
      | Inr links \<Rightarrow>
          if links = [] then normalize_loop pages (AList.update page (dict_keys corpus) corpus)
          else normalize_loop pages corpus)"

text \<open>The inner loop \<^verbatim>\<open>for i in corpus\<close> that accumulates \<^verbatim>\<open>total\<close>.\<close>

fun total_loop :: "'p corpus \<Rightarrow> 'p ranks \<Rightarrow> 'p \<Rightarrow> 'p list \<Rightarrow> rat \<Rightarrow> py_error + rat" where
  "total_loop corpus pagerank page [] total' = Inr total'"
| "total_loop corpus pagerank page (i # rest) total' =
     (case getitem corpus i of
        Inl e \<Rightarrow> Inl e
      | Inr links \<Rightarrow>
          if page \<in> set links then
            (case getitem pagerank i of
               Inl e \<Rightarrow> Inl e
             | Inr r \<Rightarrow> total_loop corpus pagerank page rest (total' + r / of_nat (length links)))
          else total_loop corpus pagerank page rest total')"

text \<open>
  One sweep, the loop \<^verbatim>\<open>for page in corpus\<close> inside the \<^verbatim>\<open>while\<close>: it reads only
  \<^verbatim>\<open>pagerank\<close> and writes only \<^verbatim>\<open>new_ranks\<close> and \<^verbatim>\<open>converge\<close>. The threshold is the
  literal \<^verbatim>\<open>0.001\<close>.
\<close>

fun sweep_loop ::
  "'p corpus \<Rightarrow> rat \<Rightarrow> nat \<Rightarrow> 'p ranks \<Rightarrow> 'p list \<Rightarrow> 'p ranks \<Rightarrow> bool \<Rightarrow>
   py_error + ('p ranks \<times> bool)" where
  "sweep_loop corpus damping_factor N pagerank [] new_ranks converge = Inr (new_ranks, converge)"
| "sweep_loop corpus damping_factor N pagerank (page # pages) new_ranks converge =
     (case total_loop corpus pagerank page (dict_keys corpus) 0 of
        Inl e \<Rightarrow> Inl e
      | Inr total' \<Rightarrow>
          (let new_rank = (1 - damping_factor) / of_nat N + damping_factor * total' in
           case getitem pagerank page of
             Inl e \<Rightarrow> Inl e
           | Inr old \<Rightarrow>
               sweep_loop corpus damping_factor N pagerank pages
                 (AList.update page new_rank new_ranks)
                 (if abs (new_rank - old) > 1 / 1000 then False else converge)))"

text \<open>
  \<^verbatim>\<open>while not converge\<close>. The loop has no bound on the number of sweeps, so it is a
  partial function: \<open>None\<close> is the run that never leaves the loop.
\<close>

partial_function (option) while_loop ::
  "'p corpus \<Rightarrow> rat \<Rightarrow> nat \<Rightarrow> 'p ranks \<Rightarrow> bool \<Rightarrow> (py_error + 'p ranks) option" where
  "while_loop corpus damping_factor N pagerank converge =
     (if \<not> converge then
        (case sweep_loop corpus damping_factor N pagerank (dict_keys corpus) [] True of
           Inl e \<Rightarrow> Some (Inl e)
         | Inr (new_ranks, converge') \<Rightarrow>
             while_loop corpus damping_factor N new_ranks converge')
      else Some (Inr pagerank))"

declare while_loop.simps [code]

text \<open>
  The result pairs the returned rank dict with the caller's corpus as the call leaves
  it, since the normalisation loop assigns into that dict.
\<close>

definition iterate_pagerank ::
  "'p corpus \<Rightarrow> rat \<Rightarrow> (py_error + ('p ranks \<times> 'p corpus)) option" where
  "iterate_pagerank corpus damping_factor =
     (let N = length corpus;
          pagerank = map (\<lambda>page. (page, 1 / of_nat N)) (dict_keys corpus)
      in case normalize_loop (dict_keys corpus) corpus of
           Inl e \<Rightarrow> Some (Inl e)
         | Inr corpus' \<Rightarrow>
             map_option (map_sum id (\<lambda>r. (r, corpus')))
               (while_loop corpus' damping_factor N pagerank False))"

section \<open>Closed forms of the loops of \<^verbatim>\<open>iterate_pagerank\<close>\<close>

text \<open>
  The definitions of this section are not part of the program: they name what its loops
  compute, and the lemmas below prove that the loops compute it. \<open>normalized\<close> is the
  corpus the normalisation loop leaves behind, \<open>link_sum\<close> the value of \<^verbatim>\<open>total\<close> after
  the inner loop, \<open>next_rank\<close> one sweep as a map on rank functions, \<open>iter_rank\<close> the
  ranks after \<open>k\<close> sweeps and \<open>settled\<close> the value of \<^verbatim>\<open>converge\<close> after sweep
  \<open>k + 1\<close>.
\<close>

definition normalized :: "'p corpus \<Rightarrow> 'p corpus" where
  "normalized corpus =
     map (\<lambda>(page, links). (page, if links = [] then dict_keys corpus else links)) corpus"

definition link_sum :: "'p corpus \<Rightarrow> ('p \<Rightarrow> rat) \<Rightarrow> 'p \<Rightarrow> rat" where
  "link_sum corpus r page =
     (\<Sum>(i, links)\<leftarrow>corpus. if page \<in> set links then r i / of_nat (length links) else 0)"

definition next_rank :: "'p corpus \<Rightarrow> rat \<Rightarrow> ('p \<Rightarrow> rat) \<Rightarrow> 'p \<Rightarrow> rat" where
  "next_rank corpus d r page = (1 - d) / of_nat (length corpus) + d * link_sum corpus r page"

definition rank_dict :: "'p corpus \<Rightarrow> ('p \<Rightarrow> rat) \<Rightarrow> 'p ranks" where
  "rank_dict corpus r = map (\<lambda>p. (p, r p)) (dict_keys corpus)"

fun iter_rank :: "'p corpus \<Rightarrow> rat \<Rightarrow> nat \<Rightarrow> 'p \<Rightarrow> rat" where
  "iter_rank corpus d 0 = (\<lambda>p. 1 / of_nat (length corpus))"
| "iter_rank corpus d (Suc k) = next_rank corpus d (iter_rank corpus d k)"

definition settled :: "'p corpus \<Rightarrow> rat \<Rightarrow> nat \<Rightarrow> bool" where
  "settled corpus d k \<longleftrightarrow>
     list_all (\<lambda>p. abs (iter_rank corpus d (Suc k) p - iter_rank corpus d k p) \<le> 1 / 1000)
       (dict_keys corpus)"

section \<open>The solver as the specification words it\<close>

text \<open>
  The specification's graph is a node set \<open>P\<close> with an adjacency \<open>out\<close>; \<open>out'\<close> is the
  adjacency after every dangling node's outbound set has been replaced by \<open>P\<close>. The
  rank after a sweep is
  \<open>newRank[p] = (1 - d) / N + d * (\<Sum>q | p \<in> out'[q]. rank[q] / |out'[q]|)\<close>, the first rank
  is \<open>1 / N\<close> everywhere, and the change of a sweep is the maximum over all nodes of
  \<open>|newRank[p] - rank[p]|\<close>. \<open>spec_l1\<close> is the sum of these absolute changes, used to
  show that the sweeps converge.
\<close>

definition spec_P :: "'p corpus \<Rightarrow> 'p set" where
  "spec_P corpus = set (dict_keys corpus)"

definition spec_out :: "'p corpus \<Rightarrow> 'p \<Rightarrow> 'p set" where
  "spec_out corpus q = (case map_of corpus q of None \<Rightarrow> {} | Some links \<Rightarrow> set links)"

definition spec_out' :: "'p corpus \<Rightarrow> 'p \<Rightarrow> 'p set" where
  "spec_out' corpus q = (if spec_out corpus q = {} then spec_P corpus else spec_out corpus q)"





section \<open>Closed form of the search in \<^verbatim>\<open>random.choices\<close>\<close>

text \<open>
  Not part of the program: \<open>scan_index a x hi\<close> is the number of leading elements of the
  first \<open>hi\<close> elements of \<open>a\<close> that are at most \<open>x\<close>, which is what the binary search
  returns on a sorted list.
\<close>

definition scan_index :: "rat list \<Rightarrow> rat \<Rightarrow> nat \<Rightarrow> nat" where
  "scan_index a x hi = length (takeWhile (\<lambda>c. c \<le> x) (take hi a))"

section \<open>The estimator as the specification words it\<close>

text \<open>
  \<open>spec_distribution\<close> is the transition distribution of a node: \<open>(1 - d) / N\<close> for every
  node plus \<open>d / k\<close> for each of the \<open>k > 0\<close> nodes it links to, and \<open>1 / N\<close> for every node
  when it links to none. \<open>spec_pick\<close> is the weighted selection by a variate \<open>u\<close>: the
  nodes divide the line into consecutive intervals, each as long as the node's weight
  and starting at \<open>spec_before\<close>, and the node whose interval holds \<open>u\<close> is selected.
  \<open>spec_start\<close> is the start node, at the index a uniform variate selects.
  \<open>spec_path\<close> lists the current node of each of the first steps of the walk, and
  \<open>spec_visits\<close> counts how often a node is in that list.
\<close>

definition spec_distribution :: "'p corpus \<Rightarrow> rat \<Rightarrow> 'p \<Rightarrow> 'p \<Rightarrow> rat" where
  "spec_distribution corpus d node q =
     (if spec_out corpus node \<noteq> {}
      then (1 - d) / of_nat (card (spec_P corpus)) +
           (if q \<in> spec_out corpus node then d / of_nat (card (spec_out corpus node)) else 0)
      else 1 / of_nat (card (spec_P corpus)))"

fun spec_pick :: "'p list \<Rightarrow> ('p \<Rightarrow> rat) \<Rightarrow> rat \<Rightarrow> 'p" where
  "spec_pick [q] w u = q"
| "spec_pick (q # qs) w u = (if u < w q then q else spec_pick qs w (u - w q))"

definition spec_start :: "'p corpus \<Rightarrow> rng \<Rightarrow> 'p" where
  "spec_start corpus g = dict_keys corpus ! nat \<lfloor>g 0 * of_nat (card (spec_P corpus))\<rfloor>"

fun spec_path :: "'p corpus \<Rightarrow> rat \<Rightarrow> 'p \<Rightarrow> rng \<Rightarrow> nat \<Rightarrow> 'p list" where
  "spec_path corpus d node g 0 = []"
| "spec_path corpus d node g (Suc i) =
     node # spec_path corpus d
              (spec_pick (dict_keys corpus) (spec_distribution corpus d node) (g 0))
              (rng_tail g) i"

definition spec_visits :: "'p corpus \<Rightarrow> rat \<Rightarrow> rng \<Rightarrow> nat \<Rightarrow> 'p \<Rightarrow> nat" where
  "spec_visits corpus d g n p =
     count_list (spec_path corpus d (spec_start corpus g) (rng_tail g) n) p"


section \<open>Properties of \<^verbatim>\<open>transition_model\<close>\<close>

lemma dict_keys_map_pair [simp]: "dict_keys (map (\<lambda>p. (p, f p)) ps) = ps"
  by (simp add: dict_keys_def comp_def)

lemma dict_keys_update_present:
  "k \<in> set (dict_keys m) \<Longrightarrow> dict_keys (AList.update k v m) = dict_keys m"
  by (induction m) (auto simp: dict_keys_def)

lemma update_map_pair:
  "distinct ps \<Longrightarrow> k \<in> set ps \<Longrightarrow>
   AList.update k v (map (\<lambda>p. (p, f p)) ps) = map (\<lambda>p. (p, (f(k := v)) p)) ps"
  by (induction ps) auto

lemma map_of_map_pair: "map_of (map (\<lambda>p. (p, f p)) ps) k = (if k \<in> set ps then Some (f k) else None)"
  by (induction ps) auto

lemma add_links_map_pair:
  assumes "distinct ps" "set links \<subseteq> set ps"
  shows "add_links (map (\<lambda>p. (p, f p)) ps) c links =
         Inr (map (\<lambda>p. (p, f p + of_nat (count_list links p) * c)) ps)"
  using assms
proof (induction links arbitrary: f)
  case Nil
  then show ?case by simp
next
  case (Cons link links)
  have upd: "AList.update link (f link + c) (map (\<lambda>p. (p, f p)) ps) =
             map (\<lambda>p. (p, (f(link := f link + c)) p)) ps"
    using Cons.prems by (simp add: update_map_pair)
  have "add_links (map (\<lambda>p. (p, f p)) ps) c (link # links) =
        add_links (map (\<lambda>p. (p, (f(link := f link + c)) p)) ps) c links"
    using Cons.prems by (simp add: getitem_def map_of_map_pair upd)
  also have "\<dots> = Inr (map (\<lambda>p. (p, (f(link := f link + c)) p + of_nat (count_list links p) * c)) ps)"
    using Cons.prems by (intro Cons.IH) auto
  also have "\<dots> = Inr (map (\<lambda>p. (p, f p + of_nat (count_list (link # links) p) * c)) ps)"
    by (simp add: algebra_simps)
  finally show ?case .
qed

lemma add_links_missing:
  "\<not> set links \<subseteq> set (dict_keys prob) \<Longrightarrow> add_links prob c links = Inl KeyError"
proof (induction links arbitrary: prob)
  case Nil
  then show ?case by simp
next
  case (Cons link links)
  show ?case
  proof (cases "map_of prob link")
    case None
    then show ?thesis by (simp add: getitem_def)
  next
    case (Some v)
    then have mem: "link \<in> set (dict_keys prob)"
      by (metis dict_keys_def map_of_eq_None_iff option.distinct(1) set_map)
    with Cons.prems have "\<not> set links \<subseteq> set (dict_keys (AList.update link (v + c) prob))"
      by (simp add: dict_keys_update_present)
    then show ?thesis
      using Some Cons.IH by (simp add: getitem_def)
  qed
qed

lemma count_list_distinct:
  "distinct xs \<Longrightarrow> count_list xs x = (if x \<in> set xs then 1 else 0)"
  by (induction xs) auto

lemma sum_list_links:
  assumes "distinct ps" "distinct links" "set links \<subseteq> set ps"
  shows "(\<Sum>q\<leftarrow>ps. a + (if q \<in> set links then b else 0)) = of_nat (length ps) * a + of_nat (length links) * (b::rat)"
proof -
  have "(\<Sum>q\<leftarrow>ps. a + (if q \<in> set links then b else 0)) = (\<Sum>q\<in>set ps. a + (if q \<in> set links then b else 0))"
    using assms(1) by (simp add: sum_list_distinct_conv_sum_set)
  also have "\<dots> = of_nat (card (set ps)) * a + (\<Sum>q\<in>set ps. if q \<in> set links then b else 0)"
    by (simp add: sum.distrib)
  also have "(\<Sum>q\<in>set ps. if q \<in> set links then b else 0) = (\<Sum>q\<in>set ps \<inter> set links. b)"
    by (rule sum.inter_restrict[symmetric]) simp
  also have "set ps \<inter> set links = set links" using assms(3) by auto
  finally show ?thesis using assms by (simp add: distinct_card)
qed

lemma transition_model_eq:
  assumes "wf_corpus corpus" "ref_inv corpus" "map_of corpus page = Some links"
  shows "transition_model corpus page d =
         Inr (map (\<lambda>q. (q, if links \<noteq> []
                            then (1 - d) / of_nat (length corpus) +
                                 (if q \<in> set links then d / of_nat (card (set links)) else 0)
                            else 1 / of_nat (length corpus)))
                  (dict_keys corpus))"
proof -
  have mem: "(page, links) \<in> set corpus" using assms(3) by (rule map_of_SomeD)
  have dl: "distinct links" using assms(1) mem by (auto simp: wf_corpus_def list_all_iff)
  have sub: "set links \<subseteq> set (dict_keys corpus)"
    using assms(2) mem by (auto simp: ref_inv_def list_all_iff)
  have dk: "distinct (dict_keys corpus)" using assms(1) by (simp add: wf_corpus_def)
  show ?thesis
    using assms(3) dl
    by (simp add: transition_model_def Let_def getitem_def add_links_map_pair[OF dk sub]
        count_list_distinct distinct_card)
qed

text \<open>
  Claim C2. For a graph with the reference invariant and a page of it,
  \<^verbatim>\<open>transition_model\<close> returns a distribution over all pages of the corpus, in the
  corpus's order. When the page has \<open>k > 0\<close> links every page gets \<open>(1 - d) / N\<close> and
  each linked page \<open>d / k\<close> more; when it has none every page gets \<open>1 / N\<close>.
\<close>

theorem transition_model_distribution:
  assumes "wf_corpus corpus" "ref_inv corpus" "map_of corpus page = Some links"
  shows "transition_model corpus page d =
         Inr (map (\<lambda>q. (q, if links \<noteq> []
                            then (1 - d) / of_nat (length corpus) +
                                 (if q \<in> set links then d / of_nat (card (set links)) else 0)
                            else 1 / of_nat (length corpus)))
                  (dict_keys corpus))"
  using assms by (rule transition_model_eq)

theorem transition_model_distribution_witness:
  "wf_corpus [(''A'', [''B'']), (''B'', [''A'', ''C'']), (''C'', [])] \<and>
   ref_inv [(''A'', [''B'']), (''B'', [''A'', ''C'']), (''C'', [])] \<and>
   map_of [(''A'', [''B'']), (''B'', [''A'', ''C'']), (''C'', [])] ''B'' = Some [''A'', ''C''] \<and>
   transition_model [(''A'', [''B'']), (''B'', [''A'', ''C'']), (''C'', [])] ''B'' (17 / 20) =
     Inr [(''A'', 19 / 40), (''B'', 1 / 20), (''C'', 19 / 40)]"
  using transition_model_distribution
    [of "[(''A'', [''B'']), (''B'', [''A'', ''C'']), (''C'', [])]" "''B''" "[''A'', ''C'']" "17 / 20"]
  by (simp add: wf_corpus_def ref_inv_def dict_keys_def)

lemma sum_list_const_rat: "(\<Sum>q\<leftarrow>ps. (a::rat)) = of_nat (length ps) * a"
  by (induction ps) (simp_all add: algebra_simps)

text \<open>
  Claim C5. For a graph with the reference invariant, a page of it and a damping factor
  in \<open>[0, 1]\<close>, the distribution \<^verbatim>\<open>transition_model\<close> returns has the corpus's pages as
  keys, sums to exactly 1 and has no negative value.
\<close>

theorem transition_model_sums_to_one:
  assumes "wf_corpus corpus" "ref_inv corpus" "map_of corpus page = Some links"
    and "0 \<le> d" "d \<le> 1"
  shows "\<exists>prob. transition_model corpus page d = Inr prob \<and>
           dict_keys prob = dict_keys corpus \<and>
           sum_list (dict_values prob) = 1 \<and>
           list_all (\<lambda>v. 0 \<le> v) (dict_values prob)"
proof -
  let ?N = "of_nat (length corpus) :: rat"
  let ?k = "of_nat (length links) :: rat"
  let ?f = "\<lambda>q. if links \<noteq> []
                 then (1 - d) / ?N + (if q \<in> set links then d / of_nat (card (set links)) else 0)
                 else 1 / ?N"
  have mem: "(page, links) \<in> set corpus" using assms(3) by (rule map_of_SomeD)
  then have N: "0 < ?N" by (cases corpus) auto
  have dl: "distinct links" using assms(1) mem by (auto simp: wf_corpus_def list_all_iff)
  have sub: "set links \<subseteq> set (dict_keys corpus)"
    using assms(2) mem by (auto simp: ref_inv_def list_all_iff)
  have dk: "distinct (dict_keys corpus)" using assms(1) by (simp add: wf_corpus_def)
  have len: "length (dict_keys corpus) = length corpus" by (simp add: dict_keys_def)
  have eq: "transition_model corpus page d = Inr (map (\<lambda>q. (q, ?f q)) (dict_keys corpus))"
    using assms(1-3) by (rule transition_model_eq)
  have vals: "dict_values (map (\<lambda>q. (q, ?f q)) (dict_keys corpus)) = map ?f (dict_keys corpus)"
    by (simp add: dict_values_def comp_def)
  have s: "sum_list (map ?f (dict_keys corpus)) = 1"
  proof (cases "links = []")
    case True
    then show ?thesis using N by (simp add: sum_list_const_rat len)
  next
    case False
    then have k: "0 < ?k" by simp
    have "sum_list (map ?f (dict_keys corpus)) =
          ?N * ((1 - d) / ?N) + ?k * (d / of_nat (card (set links)))"
      using False sum_list_links[OF dk dl sub, of "(1 - d) / ?N" "d / of_nat (card (set links))"]
      by (simp add: len)
    also have "\<dots> = 1" using N k dl by (simp add: distinct_card)
    finally show ?thesis .
  qed
  have nn: "list_all (\<lambda>v. 0 \<le> v) (map ?f (dict_keys corpus))"
    using assms(4,5) N by (auto simp: list_all_iff)
  show ?thesis
    using eq vals s nn by simp
qed

theorem transition_model_sums_to_one_witness:
  "wf_corpus [(''A'', [''B'']), (''B'', [''A'', ''C'']), (''C'', [])] \<and>
   ref_inv [(''A'', [''B'']), (''B'', [''A'', ''C'']), (''C'', [])] \<and>
   map_of [(''A'', [''B'']), (''B'', [''A'', ''C'']), (''C'', [])] ''A'' = Some [''B''] \<and>
   (0::rat) \<le> 17 / 20 \<and> (17 / 20 :: rat) \<le> 1 \<and>
   (\<exists>prob. transition_model [(''A'', [''B'']), (''B'', [''A'', ''C'']), (''C'', [])] ''A'' (17 / 20)
             = Inr prob \<and>
           dict_keys prob = [''A'', ''B'', ''C''] \<and>
           sum_list (dict_values prob) = 1 \<and>
           list_all (\<lambda>v. 0 \<le> v) (dict_values prob))"
  using transition_model_sums_to_one
    [of "[(''A'', [''B'']), (''B'', [''A'', ''C'']), (''C'', [])]" "''A''" "[''B'']" "17 / 20"]
  by (simp add: wf_corpus_def ref_inv_def dict_keys_def)

section \<open>The loops of \<^verbatim>\<open>iterate_pagerank\<close> compute their closed forms\<close>

lemma getitem_present:
  "distinct (dict_keys m) \<Longrightarrow> (k, v) \<in> set m \<Longrightarrow> getitem m k = Inr v"
  by (simp add: getitem_def dict_keys_def)

lemma dict_keys_append [simp]: "dict_keys (xs @ ys) = dict_keys xs @ dict_keys ys"
  by (simp add: dict_keys_def)

lemma dict_keys_Cons [simp]: "dict_keys ((k, v) # m) = k # dict_keys m"
  by (simp add: dict_keys_def)

lemma dict_keys_Nil [simp]: "dict_keys [] = []"
  by (simp add: dict_keys_def)

lemma update_append_absent:
  "k \<notin> set (dict_keys xs) \<Longrightarrow> AList.update k v (xs @ ys) = xs @ AList.update k v ys"
  by (induction xs) (auto simp: dict_keys_def)

lemma normalize_loop_gen:
  assumes "distinct (dict_keys (pre @ post))"
    and "K = dict_keys (pre @ post)"
    and "f = (\<lambda>(page, links). (page, if links = [] then K else links))"
  shows "normalize_loop (dict_keys post) (map f pre @ post) = Inr (map f pre @ map f post)"
  using assms
proof (induction post arbitrary: pre)
  case Nil
  then show ?case by simp
next
  case (Cons x post)
  obtain p l where x: "x = (p, l)" by (cases x)
  let ?cur = "map f pre @ (p, l) # post"
  have keys_f: "dict_keys (map f pre) = dict_keys pre"
    using Cons.prems(3) by (auto simp: dict_keys_def split: prod.splits)
  have keys_cur: "dict_keys ?cur = K"
    using Cons.prems(2) x keys_f by simp
  have dist_cur: "distinct (dict_keys ?cur)"
    using Cons.prems(1,2) keys_cur by simp
  have get: "getitem ?cur p = Inr l"
    by (rule getitem_present[OF dist_cur]) simp
  have notin: "p \<notin> set (dict_keys (map f pre))"
    using Cons.prems(1) x keys_f by auto
  have IH: "normalize_loop (dict_keys post) (map f (pre @ [x]) @ post) =
            Inr (map f (pre @ [x]) @ map f post)"
    using Cons.prems by (intro Cons.IH) (auto simp: x)
  show ?case
  proof (cases "l = []")
    case True
    have "AList.update p K ?cur = map f (pre @ [x]) @ post"
      using notin True x Cons.prems(3) by (simp add: update_append_absent)
    then have "normalize_loop (dict_keys (x # post)) (map f pre @ x # post) =
               normalize_loop (dict_keys post) (map f (pre @ [x]) @ post)"
      unfolding x dict_keys_Cons normalize_loop.simps get keys_cur using True by simp
    then show ?thesis
      using IH by simp
  next
    case False
    have "?cur = map f (pre @ [x]) @ post"
      using False x Cons.prems(3) by simp
    then have "normalize_loop (dict_keys (x # post)) (map f pre @ x # post) =
               normalize_loop (dict_keys post) (map f (pre @ [x]) @ post)"
      unfolding x dict_keys_Cons normalize_loop.simps get using False by simp
    then show ?thesis
      using IH by simp
  qed
qed

lemma normalize_loop_eq:
  assumes "distinct (dict_keys corpus)"
  shows "normalize_loop (dict_keys corpus) corpus = Inr (normalized corpus)"
proof -
  have "normalize_loop (dict_keys corpus)
          (map (\<lambda>(page, links). (page, if links = [] then dict_keys corpus else links)) [] @ corpus) =
        Inr (map (\<lambda>(page, links). (page, if links = [] then dict_keys corpus else links)) [] @
             map (\<lambda>(page, links). (page, if links = [] then dict_keys corpus else links)) corpus)"
    by (rule normalize_loop_gen) (simp_all add: assms)
  then show ?thesis
    by (simp add: normalized_def)
qed

lemma dict_keys_normalized [simp]: "dict_keys (normalized corpus) = dict_keys corpus"
  by (auto simp: normalized_def dict_keys_def split: prod.splits)

lemma length_normalized [simp]: "length (normalized corpus) = length corpus"
  by (simp add: normalized_def)

lemma total_loop_eq:
  assumes "distinct (dict_keys corpus)" "set cs \<subseteq> set corpus"
    and "\<And>i. i \<in> set (dict_keys corpus) \<Longrightarrow> map_of pagerank i = Some (r i)"
  shows "total_loop corpus pagerank page (dict_keys cs) t =
         Inr (t + (\<Sum>(i, links)\<leftarrow>cs. if page \<in> set links then r i / of_nat (length links) else 0))"
  using assms(2)
proof (induction cs arbitrary: t)
  case Nil
  then show ?case by simp
next
  case (Cons x cs)
  obtain i links where x: "x = (i, links)" by (cases x)
  have mem: "(i, links) \<in> set corpus" using Cons.prems x by simp
  have get: "getitem corpus i = Inr links"
    by (rule getitem_present[OF assms(1) mem])
  have "i \<in> set (dict_keys corpus)" using mem by (force simp: dict_keys_def)
  then have getr: "getitem pagerank i = Inr (r i)"
    using assms(3) by (simp add: getitem_def)
  have IH: "\<And>t. total_loop corpus pagerank page (dict_keys cs) t =
         Inr (t + (\<Sum>(i, links)\<leftarrow>cs. if page \<in> set links then r i / of_nat (length links) else 0))"
    using Cons.prems by (intro Cons.IH) simp
  show ?case
    unfolding x dict_keys_Cons total_loop.simps get getr IH
    by (simp add: algebra_simps)
qed

lemma total_loop_link_sum:
  assumes "distinct (dict_keys corpus)"
  shows "total_loop corpus (rank_dict corpus r) page (dict_keys corpus) 0 =
         Inr (link_sum corpus r page)"
  using total_loop_eq[OF assms subset_refl, of "rank_dict corpus r" r page 0]
  by (simp add: rank_dict_def map_of_map_pair link_sum_def)

lemma update_snoc:
  "k \<notin> set ps \<Longrightarrow> AList.update k v (map (\<lambda>p. (p, f p)) ps) = map (\<lambda>p. (p, (f(k := v)) p)) (ps @ [k])"
  by (induction ps) auto

lemma sweep_loop_gen:
  assumes "distinct (dict_keys corpus)"
    and "dict_keys corpus = pre @ post"
  shows "sweep_loop corpus d (length corpus) (rank_dict corpus r) post
           (map (\<lambda>p. (p, next_rank corpus d r p)) pre) b =
         Inr (rank_dict corpus (next_rank corpus d r),
              b \<and> list_all (\<lambda>p. abs (next_rank corpus d r p - r p) \<le> 1 / 1000) post)"
  using assms(2)
proof (induction post arbitrary: pre b)
  case Nil
  then show ?case by (simp add: rank_dict_def)
next
  case (Cons page post)
  have mem: "page \<in> set (dict_keys corpus)" using Cons.prems by simp
  have notin: "page \<notin> set pre" using assms(1) Cons.prems by auto
  have getr: "getitem (rank_dict corpus r) page = Inr (r page)"
    using mem by (simp add: getitem_def rank_dict_def map_of_map_pair)
  have upd: "AList.update page (next_rank corpus d r page) (map (\<lambda>p. (p, next_rank corpus d r p)) pre) =
             map (\<lambda>p. (p, next_rank corpus d r p)) (pre @ [page])"
    using update_snoc[OF notin, of "next_rank corpus d r page" "next_rank corpus d r"]
    by simp
  have IH: "\<And>b. sweep_loop corpus d (length corpus) (rank_dict corpus r) post
           (map (\<lambda>p. (p, next_rank corpus d r p)) (pre @ [page])) b =
         Inr (rank_dict corpus (next_rank corpus d r),
              b \<and> list_all (\<lambda>p. abs (next_rank corpus d r p - r p) \<le> 1 / 1000) post)"
    using Cons.prems by (intro Cons.IH) simp
  have nr: "(1 - d) / of_nat (length corpus) + d * link_sum corpus r page = next_rank corpus d r page"
    by (simp add: next_rank_def)
  show ?case
    unfolding sweep_loop.simps total_loop_link_sum[OF assms(1)] sum.case Let_def nr getr upd IH
    by (auto simp: not_less)
qed

lemma sweep_loop_eq:
  assumes "distinct (dict_keys corpus)"
  shows "sweep_loop corpus d (length corpus) (rank_dict corpus r) (dict_keys corpus) [] True =
         Inr (rank_dict corpus (next_rank corpus d r),
              list_all (\<lambda>p. abs (next_rank corpus d r p - r p) \<le> 1 / 1000) (dict_keys corpus))"
  using sweep_loop_gen[OF assms, of "[]" "dict_keys corpus" d r True] by simp

section \<open>The \<^verbatim>\<open>while\<close> loop returns at the first settled sweep\<close>

lemma while_loop_True: "while_loop c d N r True = Some (Inr r)"
  by (subst while_loop.simps) simp

lemma settled_iff:
  "settled c d k \<longleftrightarrow>
   list_all (\<lambda>p. abs (next_rank c d (iter_rank c d k) p - iter_rank c d k p) \<le> 1 / 1000)
     (dict_keys c)"
  by (simp add: settled_def)

lemma while_loop_step:
  assumes "distinct (dict_keys c)"
  shows "while_loop c d (length c) (rank_dict c (iter_rank c d k)) False =
         while_loop c d (length c) (rank_dict c (iter_rank c d (Suc k))) (settled c d k)"
proof -
  have sw: "sweep_loop c d (length c) (rank_dict c (iter_rank c d k)) (dict_keys c) [] True =
            Inr (rank_dict c (iter_rank c d (Suc k)), settled c d k)"
    by (simp add: sweep_loop_eq[OF assms] settled_iff)
  show ?thesis
    by (subst while_loop.simps) (simp only: sw sum.case prod.case not_False_eq_True if_True)
qed

lemma while_loop_reaches:
  assumes "distinct (dict_keys c)"
  shows "settled c d (k + m) \<Longrightarrow> (\<And>j. k \<le> j \<Longrightarrow> j < k + m \<Longrightarrow> \<not> settled c d j) \<Longrightarrow>
         while_loop c d (length c) (rank_dict c (iter_rank c d k)) False =
         Some (Inr (rank_dict c (iter_rank c d (Suc (k + m)))))"
proof (induction m arbitrary: k)
  case 0
  then show ?case
    using while_loop_step[OF assms, of d k] by (simp add: while_loop_True)
next
  case (Suc m)
  have ns: "\<not> settled c d k" using Suc.prems(2)[of k] by simp
  have "while_loop c d (length c) (rank_dict c (iter_rank c d (Suc k))) False =
        Some (Inr (rank_dict c (iter_rank c d (Suc (Suc k + m)))))"
    using Suc.prems by (intro Suc.IH) simp_all
  then show ?case
    using while_loop_step[OF assms, of d k] ns by simp
qed

lemma while_loop_returns_settled:
  assumes ret: "while_loop c d N r b = Some y"
    and "distinct (dict_keys c)" "N = length c" "\<not> b" "r = rank_dict c (iter_rank c d k)"
  shows "\<exists>j\<ge>k. settled c d j"
proof -
  let ?P = "\<lambda>c d N r b (y :: py_error + 'a ranks).
              distinct (dict_keys c) \<longrightarrow> N = length c \<longrightarrow> \<not> b \<longrightarrow>
              (\<forall>k. r = rank_dict c (iter_rank c d k) \<longrightarrow> (\<exists>j\<ge>k. settled c d j))"
  have "?P c d N r b y"
  proof (rule while_loop.raw_induct[where P = ?P, OF _ ret])
    fix f :: "'a corpus \<Rightarrow> rat \<Rightarrow> nat \<Rightarrow> 'a ranks \<Rightarrow> bool \<Rightarrow> (py_error + 'a ranks) option"
    fix c d N r b y
    assume IH: "\<And>c d N r b y. f c d N r b = Some y \<Longrightarrow> ?P c d N r b y"
    assume eq: "(if \<not> b
                 then case sweep_loop c d N r (dict_keys c) [] True of
                        Inl e \<Rightarrow> Some (Inl e)
                      | Inr (new_ranks, converge') \<Rightarrow> f c d N new_ranks converge'
                 else Some (Inr r)) = Some y"
    show "?P c d N r b y"
    proof (intro impI allI)
      fix k
      assume dk: "distinct (dict_keys c)" and N: "N = length c" and nb: "\<not> b"
        and r: "r = rank_dict c (iter_rank c d k)"
      have sw: "sweep_loop c d N r (dict_keys c) [] True =
                Inr (rank_dict c (iter_rank c d (Suc k)), settled c d k)"
        unfolding N r by (simp add: sweep_loop_eq[OF dk] settled_iff)
      have call: "f c d (length c) (rank_dict c (iter_rank c d (Suc k))) (settled c d k) = Some y"
        using eq nb unfolding sw by (simp add: N)
      show "\<exists>j\<ge>k. settled c d j"
      proof (cases "settled c d k")
        case True
        then show ?thesis by blast
      next
        case False
        from IH[OF call] dk False have "\<exists>j\<ge>Suc k. settled c d j"
          by blast
        then obtain j where "Suc k \<le> j" "settled c d j" by blast
        then have "k \<le> j \<and> settled c d j" by simp
        then show ?thesis by blast
      qed
    qed
  qed
  with assms(2-5) show ?thesis by blast
qed

lemma while_loop_least:
  assumes "distinct (dict_keys c)"
  shows "while_loop c d (length c) (rank_dict c (iter_rank c d 0)) False =
         (if \<exists>k. settled c d k
          then Some (Inr (rank_dict c (iter_rank c d (Suc (LEAST k. settled c d k)))))
          else None)"
proof (cases "\<exists>k. settled c d k")
  case True
  then obtain k0 where k0: "settled c d k0" by blast
  define K where "K = (LEAST k. settled c d k)"
  have l: "settled c d K" unfolding K_def using k0 by (rule LeastI)
  have n: "\<not> settled c d j" if "j < K" for j
    using that unfolding K_def by (rule not_less_Least)
  have "while_loop c d (length c) (rank_dict c (iter_rank c d 0)) False =
        Some (Inr (rank_dict c (iter_rank c d (Suc (0 + K)))))"
  proof (rule while_loop_reaches[OF assms])
    show "settled c d (0 + K)" using l by simp
    show "\<not> settled c d j" if "0 \<le> j" "j < 0 + K" for j
      using that n by simp
  qed
  then have "while_loop c d (length c) (rank_dict c (iter_rank c d 0)) False =
        Some (Inr (rank_dict c (iter_rank c d (Suc K))))"
    by (simp only: add_0)
  then show ?thesis
    unfolding K_def using True by (simp only: if_True)
next
  case False
  have "while_loop c d (length c) (rank_dict c (iter_rank c d 0)) False = None"
  proof (rule ccontr)
    assume "while_loop c d (length c) (rank_dict c (iter_rank c d 0)) False \<noteq> None"
    then obtain y where "while_loop c d (length c) (rank_dict c (iter_rank c d 0)) False = Some y"
      by blast
    from while_loop_returns_settled[OF this assms refl _ refl] False show False by blast
  qed
  then show ?thesis using False by (simp only: if_False)
qed

lemma iterate_pagerank_eq:
  assumes "distinct (dict_keys corpus)"
  shows "iterate_pagerank corpus d =
         (if \<exists>k. settled (normalized corpus) d k
          then Some (Inr (rank_dict (normalized corpus)
                   (iter_rank (normalized corpus) d (Suc (LEAST k. settled (normalized corpus) d k))),
                 normalized corpus))
          else None)"
proof -
  have init: "map (\<lambda>page. (page, 1 / of_nat (length corpus))) (dict_keys corpus) =
              rank_dict (normalized corpus) (iter_rank (normalized corpus) d 0)"
    by (simp add: rank_dict_def)
  have dn: "distinct (dict_keys (normalized corpus))" using assms by simp
  show ?thesis
    unfolding iterate_pagerank_def Let_def normalize_loop_eq[OF assms] sum.case init
    using while_loop_least[OF dn, of d] by simp
qed

section \<open>The program's sweep is the specification's\<close>

lemma sum_list_normalized:
  assumes "distinct (dict_keys corpus)"
  shows "(\<Sum>(i, links)\<leftarrow>normalized corpus. h i (set links) (length links)) =
         (\<Sum>(i, links)\<leftarrow>corpus. h i (if links = [] then set (dict_keys corpus) else set links)
                                    (if links = [] then length corpus else length links))"
proof -
  have len: "length (dict_keys corpus) = length corpus" by (simp add: dict_keys_def)
  show ?thesis
    unfolding normalized_def map_map comp_def
    by (rule arg_cong[where f = sum_list], rule map_cong[OF refl]) (auto simp: len)
qed






lemma card_spec_P: "distinct (dict_keys corpus) \<Longrightarrow> card (spec_P corpus) = length corpus"
  using distinct_card[of "dict_keys corpus"] by (simp add: spec_P_def dict_keys_def)




section \<open>Convergence for a damping factor of absolute value below 1\<close>









section \<open>What \<^verbatim>\<open>iterate_pagerank\<close> returns\<close>







section \<open>The caller's corpus after \<^verbatim>\<open>iterate_pagerank\<close>\<close>

lemma dict_keys_rank_dict [simp]: "dict_keys (rank_dict c r) = dict_keys c"
  by (simp add: rank_dict_def)


lemma iterate_pagerank_returns:
  assumes "distinct (dict_keys corpus)" "iterate_pagerank corpus d = Some res"
  shows "res = Inr (rank_dict (normalized corpus)
                      (iter_rank (normalized corpus) d
                         (Suc (LEAST k. settled (normalized corpus) d k))),
                    normalized corpus) \<and>
         (\<exists>k. settled (normalized corpus) d k)"
proof -
  let ?E = "\<exists>k. settled (normalized corpus) d k"
  let ?X = "Inr (rank_dict (normalized corpus)
                  (iter_rank (normalized corpus) d
                     (Suc (LEAST k. settled (normalized corpus) d k))),
                normalized corpus) :: py_error + ('a ranks \<times> 'a corpus)"
  have eq: "(if ?E then Some ?X else None) = Some res"
    using assms(2) unfolding iterate_pagerank_eq[OF assms(1)] .
  have E: ?E
  proof (rule ccontr)
    assume "\<not> ?E"
    then have "(if ?E then Some ?X else None) = None" by (rule if_not_P)
    with eq show False by simp
  qed
  then have "(if ?E then Some ?X else None) = Some ?X" by (rule if_P)
  with eq have "res = ?X" by simp
  with E show ?thesis by (rule conjI[rotated])
qed

lemma map_of_normalized:
  "map_of (normalized corpus) p =
   map_option (\<lambda>links. if links = [] then dict_keys corpus else links) (map_of corpus p)"
  unfolding normalized_def map_of_map by simp

lemma spec_out_normalized:
  assumes "p \<in> set (dict_keys corpus)"
  shows "spec_out (normalized corpus) p = spec_out' corpus p"
proof -
  obtain links where l: "map_of corpus p = Some links"
    using assms by (metis dict_keys_def map_of_eq_None_iff not_Some_eq set_map)
  show ?thesis
    by (simp add: spec_out_def spec_out'_def spec_P_def map_of_normalized l)
qed

text \<open>
  Claim C4, as amended. The normalisation is done in place on the caller's dict: when
  \<^verbatim>\<open>iterate_pagerank\<close> returns, the dict has the same keys in the same order, every
  dangling page's set has been replaced by the set of all pages, and every other page's
  set is what it was.
\<close>

theorem iterate_pagerank_rewrites_corpus:
  assumes "wf_corpus corpus" "iterate_pagerank corpus d = Some (Inr (r, corpus'))"
  shows "corpus' = normalized corpus \<and>
         dict_keys corpus' = dict_keys corpus \<and>
         list_all (\<lambda>p. spec_out corpus' p =
                      (if spec_out corpus p = {} then spec_P corpus else spec_out corpus p))
           (dict_keys corpus)"
proof -
  have dk: "distinct (dict_keys corpus)" using assms(1) by (simp add: wf_corpus_def)
  from iterate_pagerank_returns[OF dk assms(2)] have c': "corpus' = normalized corpus" by simp
  have "spec_out (normalized corpus) p =
        (if spec_out corpus p = {} then spec_P corpus else spec_out corpus p)"
    if "p \<in> set (dict_keys corpus)" for p
    using spec_out_normalized[OF that] by (simp add: spec_out'_def)
  then show ?thesis
    unfolding c' by (simp add: list_all_iff)
qed

theorem iterate_pagerank_rewrites_corpus_witness:
  "wf_corpus [(''A'', [])] \<and>
   iterate_pagerank [(''A'', [])] (17 / 20) = Some (Inr ([(''A'', 1)], [(''A'', [''A''])])) \<and>
   [(''A'', [''A''])] = normalized [(''A'', [])] \<and>
   dict_keys [(''A'', [''A''])] = dict_keys ([(''A'', [])] :: string corpus) \<and>
   list_all (\<lambda>p. spec_out [(''A'', [''A''])] p =
                (if spec_out [(''A'', [])] p = {} then spec_P ([(''A'', [])] :: string corpus)
                 else spec_out [(''A'', [])] p))
     (dict_keys ([(''A'', [])] :: string corpus))"
proof -
  have wf: "wf_corpus [(''A'', [])]" by (simp add: wf_corpus_def dict_keys_def)
  have it: "iterate_pagerank [(''A'', [])] (17 / 20) = Some (Inr ([(''A'', 1)], [(''A'', [''A''])]))"
    by code_simp
  show ?thesis
    by (rule conjI[OF wf conjI[OF it iterate_pagerank_rewrites_corpus[OF wf it]]])
qed

text \<open>
  The claim as stated (the caller's graph is unchanged) fails on the one-page corpus
  whose page has no link: after the call the caller's dict maps the page to itself.
\<close>

theorem iterate_pagerank_keeps_corpus_counterexample:
  "iterate_pagerank [(''A'', [])] (17 / 20) = Some (Inr ([(''A'', 1)], [(''A'', [''A''])])) \<and>
   spec_out [(''A'', [''A''])] ''A'' \<noteq> spec_out [(''A'', [])] ''A''"
proof -
  have "iterate_pagerank [(''A'', [])] (17 / 20) = Some (Inr ([(''A'', 1)], [(''A'', [''A''])]))"
    by code_simp
  then show ?thesis by (simp add: spec_out_def)
qed

section \<open>A dangling page and a page that links to every page\<close>

lemma update_as_map:
  "distinct (dict_keys m) \<Longrightarrow> p \<in> set (dict_keys m) \<Longrightarrow>
   AList.update p v m = map (\<lambda>(i, l). (i, if i = p then v else l)) m"
proof (induction m)
  case Nil
  then show ?case by simp
next
  case (Cons e m)
  obtain i l where e: "e = (i, l)" by (cases e)
  show ?case
  proof (cases "i = p")
    case True
    then have "p \<notin> set (dict_keys m)" using Cons.prems(1) e by simp
    then have "map (\<lambda>(i, l). (i, if i = p then v else l)) m = m"
      by (induction m) (auto simp: dict_keys_def)
    then show ?thesis using True e by simp
  next
    case False
    then show ?thesis using Cons e by simp
  qed
qed

lemma link_sum_update_dangling:
  assumes dk: "distinct (dict_keys G)" and p: "map_of G p = Some []"
    and dps: "distinct ps" and sps: "set ps = set (dict_keys G)"
  shows "link_sum (normalized (AList.update p ps G)) r page = link_sum (normalized G) r page"
proof -
  let ?g = "\<lambda>(i, l). (i, if i = p then ps else l)"
  let ?H = "\<lambda>i S n. if page \<in> S then r i / of_nat n else 0"
  have pk: "p \<in> set (dict_keys G)"
    using p by (metis dict_keys_def map_of_eq_None_iff option.distinct(1) set_map)
  have upd: "AList.update p ps G = map ?g G" using dk pk by (rule update_as_map)
  have keys': "dict_keys (map ?g G) = dict_keys G"
    by (auto simp: dict_keys_def split: prod.splits)
  have dk': "distinct (dict_keys (map ?g G))" using dk keys' by simp
  have lenk: "length (dict_keys G) = length G" by (simp add: dict_keys_def)
  have lps: "length ps = length G"
    using distinct_card[OF dps] distinct_card[OF dk] sps lenk by simp
  have psne: "ps \<noteq> []" using pk sps by auto
  have "link_sum (normalized (map ?g G)) r page =
        (\<Sum>(i, links)\<leftarrow>map ?g G.
           ?H i (if links = [] then set (dict_keys (map ?g G)) else set links)
                (if links = [] then length (map ?g G) else length links))"
    unfolding link_sum_def using sum_list_normalized[OF dk', of ?H] .
  also have "\<dots> = (\<Sum>(i, links)\<leftarrow>G.
           ?H i (if links = [] then set (dict_keys G) else set links)
                (if links = [] then length G else length links))"
    unfolding map_map keys' length_map
  proof (rule arg_cong[where f = sum_list], rule map_cong[OF refl], clarify)
    fix i l
    assume mem: "(i, l) \<in> set G"
    show "((\<lambda>(i, links). ?H i (if links = [] then set (dict_keys G) else set links)
                 (if links = [] then length G else length links)) \<circ> ?g) (i, l) =
          ?H i (if l = [] then set (dict_keys G) else set l)
               (if l = [] then length G else length l)"
    proof (cases "i = p")
      case True
      have "map_of G i = Some l" using dk mem by (simp add: dict_keys_def)
      then have "l = []" using p True by simp
      then show ?thesis using True psne sps lps by simp
    next
      case False
      then show ?thesis by simp
    qed
  qed
  also have "\<dots> = link_sum (normalized G) r page"
    unfolding link_sum_def using sum_list_normalized[OF dk, of ?H] by simp
  finally show ?thesis unfolding upd .
qed

lemma update_dangling_facts:
  assumes dk: "distinct (dict_keys G)" and p: "map_of G p = Some []"
  shows "dict_keys (AList.update p ps G) = dict_keys G"
    and "length (AList.update p ps G) = length G"
proof -
  have pk: "p \<in> set (dict_keys G)"
    using p by (metis dict_keys_def map_of_eq_None_iff option.distinct(1) set_map)
  show "dict_keys (AList.update p ps G) = dict_keys G"
    using pk by (rule dict_keys_update_present)
  then have "length (dict_keys (AList.update p ps G)) = length (dict_keys G)" by simp
  then show "length (AList.update p ps G) = length G" by (simp add: dict_keys_def)
qed

lemma iter_rank_update_dangling:
  assumes dk: "distinct (dict_keys G)" and p: "map_of G p = Some []"
    and dps: "distinct ps" and sps: "set ps = set (dict_keys G)"
  shows "iter_rank (normalized (AList.update p ps G)) d k = iter_rank (normalized G) d k"
proof (induction k)
  case 0
  show ?case by (simp add: update_dangling_facts(2)[OF dk p])
next
  case (Suc k)
  have "next_rank (normalized (AList.update p ps G)) d r = next_rank (normalized G) d r" for r
    by (rule ext)
      (simp add: next_rank_def link_sum_update_dangling[OF assms] update_dangling_facts(2)[OF dk p])
  then show ?case using Suc by simp
qed

lemma settled_update_dangling:
  assumes dk: "distinct (dict_keys G)" and p: "map_of G p = Some []"
    and dps: "distinct ps" and sps: "set ps = set (dict_keys G)"
  shows "settled (normalized (AList.update p ps G)) d k = settled (normalized G) d k"
  unfolding settled_def iter_rank_update_dangling[OF assms]
  by (simp add: update_dangling_facts(1)[OF dk p])

text \<open>
  Claim C7. For a graph with a dangling page \<open>p\<close> and any damping factor, the solver's
  output is the same as on the graph in which the set of \<open>p\<close> has been replaced by the set
  of all pages (in whatever order that set lists them): the same rank dict when one
  run returns, and no return when the other does not return.
\<close>

theorem iterate_pagerank_dangling_equiv:
  assumes "wf_corpus G" and "map_of G p = Some []"
    and "distinct ps" and "set ps = set (dict_keys G)"
  shows "map_option (map_sum id fst) (iterate_pagerank (AList.update p ps G) d) =
         map_option (map_sum id fst) (iterate_pagerank G d)"
proof -
  have dk: "distinct (dict_keys G)" using assms(1) by (simp add: wf_corpus_def)
  have keys': "dict_keys (AList.update p ps G) = dict_keys G"
    by (rule update_dangling_facts(1)[OF dk assms(2)])
  have dk': "distinct (dict_keys (AList.update p ps G))" using dk keys' by simp
  have rd: "rank_dict (normalized (AList.update p ps G)) r = rank_dict (normalized G) r" for r
    by (simp add: rank_dict_def keys')
  show ?thesis
    unfolding iterate_pagerank_eq[OF dk] iterate_pagerank_eq[OF dk']
      settled_update_dangling[OF dk assms(2-4)] iter_rank_update_dangling[OF dk assms(2-4)] rd
    by simp
qed

theorem iterate_pagerank_dangling_equiv_witness:
  "wf_corpus [(''A'', [''B'']), (''B'', [])] \<and>
   map_of [(''A'', [''B'']), (''B'', [])] ''B'' = Some [] \<and>
   distinct [''B'', ''A''] \<and>
   set [''B'', ''A''] = set (dict_keys ([(''A'', [''B'']), (''B'', [])] :: string corpus)) \<and>
   map_option (map_sum id fst) (iterate_pagerank [(''A'', [''B'']), (''B'', [''B'', ''A''])] (17 / 20)) =
   map_option (map_sum id fst) (iterate_pagerank [(''A'', [''B'']), (''B'', [])] (17 / 20))"
proof -
  have wf: "wf_corpus [(''A'', [''B'']), (''B'', [])]"
    by (simp add: wf_corpus_def dict_keys_def)
  have m: "map_of [(''A'', [''B'']), (''B'', [])] ''B'' = Some []" by simp
  have d: "distinct [''B'', ''A'']" by simp
  have s: "set [''B'', ''A''] = set (dict_keys ([(''A'', [''B'']), (''B'', [])] :: string corpus))"
    by (auto simp: dict_keys_def)
  have u: "AList.update ''B'' [''B'', ''A''] [(''A'', [''B'']), (''B'', [])] =
           [(''A'', [''B'']), (''B'', [''B'', ''A''])]"
    by simp
  from iterate_pagerank_dangling_equiv[OF wf m d s, of "17 / 20"]
  have "map_option (map_sum id fst) (iterate_pagerank [(''A'', [''B'']), (''B'', [''B'', ''A''])] (17 / 20)) =
   map_option (map_sum id fst) (iterate_pagerank [(''A'', [''B'']), (''B'', [])] (17 / 20))"
    unfolding u .
  with wf m d s show ?thesis by (intro conjI)
qed

section \<open>\<^verbatim>\<open>sample_pagerank\<close> follows the specification's walk\<close>

lemma length_accumulate [simp]: "length (accumulate a ws) = length ws"
  by (induction ws arbitrary: a) auto

lemma last_accumulate: "ws \<noteq> [] \<Longrightarrow> last (accumulate a ws) = a + sum_list ws"
proof (induction ws arbitrary: a)
  case Nil
  then show ?case by simp
next
  case (Cons w ws)
  show ?case
  proof (cases "ws = []")
    case True
    then show ?thesis by simp
  next
    case False
    then have "accumulate (a + w) ws \<noteq> []" by (cases ws) auto
    then show ?thesis using Cons.IH[OF False, of "a + w"] by (simp add: add.assoc)
  qed
qed


lemma scan_index_unique:
  assumes "r \<le> H" "H \<le> length a"
    and "\<And>i. i < r \<Longrightarrow> a ! i \<le> x"
    and "\<And>i. r \<le> i \<Longrightarrow> i < H \<Longrightarrow> x < a ! i"
  shows "scan_index a x H = r"
proof -
  have "takeWhile (\<lambda>c. c \<le> x) (take H a) = take r (take H a)"
  proof (rule takeWhile_eq_take_P_nth)
    fix i assume "i < r" "i < length (take H a)"
    then show "take H a ! i \<le> x" using assms(3) by simp
  next
    assume "r < length (take H a)"
    then have "r < H" by simp
    then have "x < a ! r" using assms(4) by simp
    then show "\<not> take H a ! r \<le> x" using \<open>r < H\<close> by simp
  qed
  then show ?thesis using assms(1,2) by (simp add: scan_index_def)
qed

lemma bisect_right_scan_gen:
  shows "sorted (take H a) \<Longrightarrow> H \<le> length a \<Longrightarrow>
         lo \<le> hi \<Longrightarrow> hi \<le> H \<Longrightarrow> (\<And>i. i < lo \<Longrightarrow> a ! i \<le> x) \<Longrightarrow>
         (\<And>i. hi \<le> i \<Longrightarrow> i < H \<Longrightarrow> x < a ! i) \<Longrightarrow>
         bisect_right a x lo hi = scan_index a x H"
proof (induction a x lo hi rule: bisect_right.induct)
  case (1 a x lo hi)
  note sorted = \<open>sorted (take H a)\<close>
  note lo_hi = \<open>lo \<le> hi\<close> and hi_H = \<open>hi \<le> H\<close>
  have below: "a ! i \<le> x" if "i < lo" for i using that "1.prems"(5) by simp
  have above: "x < a ! i" if "hi \<le> i" "i < H" for i using that "1.prems"(6) by simp
  have mono: "a ! i \<le> a ! j" if "i \<le> j" "j < H" for i j
  proof -
    have "take H a ! i \<le> take H a ! j"
      using sorted that \<open>H \<le> length a\<close> by (intro sorted_nth_mono) simp_all
    then show ?thesis using that by simp
  qed
  show ?case
  proof (cases "lo < hi")
    case False
    then have eq: "lo = hi" using lo_hi by simp
    have "bisect_right a x lo hi = lo" using False by (subst bisect_right.simps) simp
    moreover have "scan_index a x H = lo"
      by (rule scan_index_unique) (use below above eq hi_H \<open>H \<le> length a\<close> in auto)
    ultimately show ?thesis by simp
  next
    case True
    let ?mid = "(lo + hi) div 2"
    have m: "lo \<le> ?mid" "?mid < hi" using True by auto
    show ?thesis
    proof (cases "x < a ! ?mid")
      case lt: True
      have "bisect_right a x lo hi = bisect_right a x lo ?mid"
        using True lt by (subst bisect_right.simps) (simp add: Let_def)
      also have "\<dots> = scan_index a x H"
      proof (rule "1.IH"(1)[OF True refl lt sorted \<open>H \<le> length a\<close>])
        show "lo \<le> ?mid" by (rule m)
        show "?mid \<le> H" using m hi_H by simp
        show "\<And>i. i < lo \<Longrightarrow> a ! i \<le> x" by (rule below)
        show "x < a ! i" if "?mid \<le> i" "i < H" for i
          using lt mono[OF that] by simp
      qed
      finally show ?thesis .
    next
      case ge: False
      have "bisect_right a x lo hi = bisect_right a x (?mid + 1) hi"
        using True ge by (subst bisect_right.simps) (simp add: Let_def)
      also have "\<dots> = scan_index a x H"
      proof (rule "1.IH"(2)[OF True refl ge sorted \<open>H \<le> length a\<close>])
        show "?mid + 1 \<le> hi" using m by simp
        show "hi \<le> H" by (rule hi_H)
        show "a ! i \<le> x" if "i < ?mid + 1" for i
        proof -
          have "?mid < H" using m hi_H by simp
          then have "a ! i \<le> a ! ?mid" using that by (intro mono) simp_all
          then show ?thesis using ge by simp
        qed
        show "\<And>i. hi \<le> i \<Longrightarrow> i < H \<Longrightarrow> x < a ! i" by (rule above)
      qed
      finally show ?thesis .
    qed
  qed
qed

lemma bisect_right_scan:
  assumes "sorted (take hi a)" "hi \<le> length a"
  shows "bisect_right a x 0 hi = scan_index a x hi"
  using assms by (intro bisect_right_scan_gen) simp_all

lemma sorted_accumulate:
  "(\<And>w. w \<in> set ws \<Longrightarrow> 0 \<le> w) \<Longrightarrow> sorted (accumulate acc ws) \<and>
     (\<forall>c \<in> set (accumulate acc ws). acc \<le> c)"
proof (induction ws arbitrary: acc)
  case Nil
  then show ?case by simp
next
  case (Cons w ws)
  have w: "0 \<le> w" using Cons.prems by simp
  have IH: "sorted (accumulate (acc + w) ws) \<and> (\<forall>c \<in> set (accumulate (acc + w) ws). acc + w \<le> c)"
    using Cons.prems by (intro Cons.IH) simp
  then show ?case using w by auto
qed

lemma scan_pick:
  "qs \<noteq> [] \<Longrightarrow>
   qs ! scan_index (accumulate a (map w qs)) x (length qs - 1) = spec_pick qs w (x - a)"
proof (induction qs arbitrary: a)
  case Nil
  then show ?case by simp
next
  case (Cons q qs)
  show ?case
  proof (cases qs)
    case Nil
    then show ?thesis by (simp add: scan_index_def)
  next
    case (Cons q' qs')
    have IH: "qs ! scan_index (accumulate (a + w q) (map w qs)) x (length qs - 1) =
              spec_pick qs w (x - (a + w q))"
      using Cons.IH[of "a + w q"] Cons by simp
    show ?thesis
    proof (cases "a + w q \<le> x")
      case True
      then have "scan_index (accumulate a (map w (q # qs))) x (length (q # qs) - 1) =
                 Suc (scan_index (accumulate (a + w q) (map w qs)) x (length qs - 1))"
        using Cons by (simp add: scan_index_def)
      moreover have "spec_pick (q # qs) w (x - a) = spec_pick qs w (x - (a + w q))"
        using True Cons by (simp add: algebra_simps)
      ultimately show ?thesis using IH by simp
    next
      case False
      then have "scan_index (accumulate a (map w (q # qs))) x (length (q # qs) - 1) = 0"
        using Cons by (simp add: scan_index_def)
      moreover have "spec_pick (q # qs) w (x - a) = q"
        using False Cons by (simp add: algebra_simps)
      ultimately show ?thesis by simp
    qed
  qed
qed

lemma random_choices_pick:
  assumes "qs \<noteq> []" "0 < sum_list (map w qs)" "\<And>q. q \<in> set qs \<Longrightarrow> 0 \<le> w q"
  shows "random_choices qs (map w qs) g =
         Inr (spec_pick qs w (g 0 * sum_list (map w qs)), rng_tail g)"
proof -
  let ?cum = "accumulate 0 (map w qs)"
  have ne: "?cum \<noteq> []" using assms(1) by (cases qs) auto
  have l: "last ?cum = sum_list (map w qs)"
    using last_accumulate[of "map w qs" 0] assms(1) by simp
  have "sorted ?cum" using sorted_accumulate[of "map w qs" 0] assms(3) by auto
  then have srt: "sorted (take (length qs - 1) ?cum)" by simp
  have "bisect_right ?cum (g 0 * sum_list (map w qs)) 0 (length qs - 1) =
        scan_index ?cum (g 0 * sum_list (map w qs)) (length qs - 1)"
    by (rule bisect_right_scan[OF srt]) simp
  then have "qs ! bisect_right ?cum (g 0 * sum_list (map w qs)) 0 (length qs - 1) =
             spec_pick qs w (g 0 * sum_list (map w qs))"
    using scan_pick[OF assms(1), of 0 w "g 0 * sum_list (map w qs)"] by simp
  then show ?thesis
    unfolding random_choices_def Let_def l using ne assms(2) by simp
qed


lemma spec_pick_mem: "qs \<noteq> [] \<Longrightarrow> spec_pick qs w u \<in> set qs"
proof (induction qs arbitrary: u)
  case Nil
  then show ?case by simp
next
  case (Cons q qs)
  then show ?case by (cases qs) auto
qed

lemma transition_model_spec:
  assumes "wf_corpus corpus" "ref_inv corpus" "page \<in> set (dict_keys corpus)"
  shows "transition_model corpus page d =
         Inr (map (\<lambda>q. (q, spec_distribution corpus d page q)) (dict_keys corpus))"
proof -
  obtain links where l: "map_of corpus page = Some links"
    using assms(3) by (metis dict_keys_def map_of_eq_None_iff not_Some_eq set_map)
  have dk: "distinct (dict_keys corpus)" using assms(1) by (simp add: wf_corpus_def)
  have mem: "(page, links) \<in> set corpus" using l by (rule map_of_SomeD)
  have out: "spec_out corpus page = set links" by (simp add: spec_out_def l)
  have "transition_model corpus page d =
         Inr (map (\<lambda>q. (q, if links \<noteq> []
                            then (1 - d) / of_nat (length corpus) +
                                 (if q \<in> set links then d / of_nat (card (set links)) else 0)
                            else 1 / of_nat (length corpus)))
                  (dict_keys corpus))"
    using assms(1,2) l by (rule transition_model_eq)
  also have "(\<lambda>q. (q, if links \<noteq> []
                            then (1 - d) / of_nat (length corpus) +
                                 (if q \<in> set links then d / of_nat (card (set links)) else 0)
                            else 1 / of_nat (length corpus))) =
             (\<lambda>q. (q, spec_distribution corpus d page q))"
    by (rule ext) (simp add: spec_distribution_def out card_spec_P[OF dk])
  finally show ?thesis .
qed

lemma spec_distribution_sum:
  assumes "wf_corpus corpus" "ref_inv corpus" "page \<in> set (dict_keys corpus)"
  shows "sum_list (map (spec_distribution corpus d page) (dict_keys corpus)) = 1"
proof -
  obtain links where l: "map_of corpus page = Some links"
    using assms(3) by (metis dict_keys_def map_of_eq_None_iff not_Some_eq set_map)
  let ?N = "of_nat (length corpus) :: rat"
  let ?k = "of_nat (length links) :: rat"
  have mem: "(page, links) \<in> set corpus" using l by (rule map_of_SomeD)
  then have N: "0 < ?N" by (cases corpus) auto
  have dl: "distinct links" using assms(1) mem by (auto simp: wf_corpus_def list_all_iff)
  have sub: "set links \<subseteq> set (dict_keys corpus)"
    using assms(2) mem by (auto simp: ref_inv_def list_all_iff)
  have dk: "distinct (dict_keys corpus)" using assms(1) by (simp add: wf_corpus_def)
  have len: "length (dict_keys corpus) = length corpus" by (simp add: dict_keys_def)
  have out: "spec_out corpus page = set links" by (simp add: spec_out_def l)
  have sd: "spec_distribution corpus d page =
            (\<lambda>q. if links \<noteq> [] then (1 - d) / ?N + (if q \<in> set links then d / ?k else 0)
                 else 1 / ?N)"
    by (rule ext) (simp add: spec_distribution_def out card_spec_P[OF dk] distinct_card[OF dl])
  show ?thesis
  proof (cases "links = []")
    case True
    then show ?thesis
      unfolding sd using N by (simp add: sum_list_const_rat len)
  next
    case False
    then have k: "0 < ?k" by simp
    have "sum_list (map (spec_distribution corpus d page) (dict_keys corpus)) =
          (\<Sum>q\<leftarrow>dict_keys corpus. (1 - d) / ?N + (if q \<in> set links then d / ?k else 0))"
      unfolding sd using False by simp
    also have "\<dots> = ?N * ((1 - d) / ?N) + ?k * (d / ?k)"
      using sum_list_links[OF dk dl sub, of "(1 - d) / ?N" "d / ?k"] by (simp add: len)
    also have "\<dots> = 1" using N k by simp
    finally show ?thesis .
  qed
qed

lemma draw_next:
  assumes "wf_corpus corpus" "ref_inv corpus" "page \<in> set (dict_keys corpus)"
    and "transition_model corpus page d = Inr probs"
    and "\<And>q. q \<in> set (dict_keys corpus) \<Longrightarrow> 0 \<le> spec_distribution corpus d page q"
  shows "random_choices (dict_keys probs) (dict_values probs) g =
         Inr (spec_pick (dict_keys corpus) (spec_distribution corpus d page) (g 0), rng_tail g)"
proof -
  have probs: "probs = map (\<lambda>q. (q, spec_distribution corpus d page q)) (dict_keys corpus)"
    using transition_model_spec[OF assms(1-3), of d] assms(4) by simp
  have k: "dict_keys probs = dict_keys corpus" by (simp add: probs)
  have v: "dict_values probs = map (spec_distribution corpus d page) (dict_keys corpus)"
    by (simp add: probs dict_values_def comp_def)
  have ne: "dict_keys corpus \<noteq> []" using assms(3) by auto
  show ?thesis
    unfolding k v
    using random_choices_pick[OF ne, of "spec_distribution corpus d page" g] assms(5)
    by (simp add: spec_distribution_sum[OF assms(1-3)])
qed

lemma spec_path_length [simp]: "length (spec_path corpus d node g i) = i"
  by (induction i arbitrary: node g) auto

lemma spec_path_subset:
  "node \<in> set (dict_keys corpus) \<Longrightarrow> set (spec_path corpus d node g i) \<subseteq> set (dict_keys corpus)"
proof (induction i arbitrary: node g)
  case 0
  then show ?case by simp
next
  case (Suc i)
  have ne: "dict_keys corpus \<noteq> []" using Suc.prems by auto
  have "spec_pick (dict_keys corpus) (spec_distribution corpus d node) (g 0) \<in> set (dict_keys corpus)"
    by (rule spec_pick_mem[OF ne])
  from Suc.IH[OF this] Suc.prems show ?case by simp
qed

lemma rng_tail_funpow: "(rng_tail ^^ i) g = (\<lambda>j. g (j + i))"
  by (induction i arbitrary: g) (simp_all add: rng_tail_def funpow_swap1)

lemma sample_loop_eq:
  assumes "wf_corpus corpus" "ref_inv corpus"
    and nonneg: "\<And>node q. node \<in> set (dict_keys corpus) \<Longrightarrow> q \<in> set (dict_keys corpus) \<Longrightarrow>
                 0 \<le> spec_distribution corpus d node q"
  shows "page \<in> set (dict_keys corpus) \<Longrightarrow>
         \<exists>page'. sample_loop corpus d i (map (\<lambda>p. (p, c p)) (dict_keys corpus)) page g =
           Inr (map (\<lambda>p. (p, c p + int (count_list (spec_path corpus d page g i) p)))
                  (dict_keys corpus),
                page', (rng_tail ^^ i) g)"
proof (induction i arbitrary: c page g)
  case 0
  then show ?case by simp
next
  case (Suc i)
  let ?keys = "dict_keys corpus"
  let ?next = "spec_pick ?keys (spec_distribution corpus d page) (g 0)"
  let ?c' = "c(page := c page + 1)"
  have dk: "distinct ?keys" using assms(1) by (simp add: wf_corpus_def)
  have ne: "?keys \<noteq> []" using Suc.prems by auto
  have get: "getitem (map (\<lambda>p. (p, c p)) ?keys) page = Inr (c page)"
    using Suc.prems by (simp add: getitem_def map_of_map_pair)
  have tm: "transition_model corpus page d =
            Inr (map (\<lambda>q. (q, spec_distribution corpus d page q)) ?keys)"
    by (rule transition_model_spec[OF assms(1,2) Suc.prems])
  have draw: "random_choices
                (dict_keys (map (\<lambda>q. (q, spec_distribution corpus d page q)) ?keys))
                (dict_values (map (\<lambda>q. (q, spec_distribution corpus d page q)) ?keys)) g =
              Inr (?next, rng_tail g)"
    by (rule draw_next[OF assms(1,2) Suc.prems tm nonneg[OF Suc.prems]])
  have upd: "AList.update page (c page + 1) (map (\<lambda>p. (p, c p)) ?keys) =
             map (\<lambda>p. (p, ?c' p)) ?keys"
    using update_map_pair[OF dk Suc.prems, of "c page + 1" c] .
  have nmem: "?next \<in> set ?keys" by (rule spec_pick_mem[OF ne])
  from Suc.IH[OF nmem, of ?c' "rng_tail g"] obtain page' where
    IH: "sample_loop corpus d i (map (\<lambda>p. (p, ?c' p)) ?keys) ?next (rng_tail g) =
         Inr (map (\<lambda>p. (p, ?c' p + int (count_list (spec_path corpus d ?next (rng_tail g) i) p))) ?keys,
              page', (rng_tail ^^ i) (rng_tail g))"
    by blast
  have cnt: "(\<lambda>p. (p, ?c' p + int (count_list (spec_path corpus d ?next (rng_tail g) i) p))) =
             (\<lambda>p. (p, c p + int (count_list (spec_path corpus d page g (Suc i)) p)))"
    by (rule ext) simp
  have "sample_loop corpus d (Suc i) (map (\<lambda>p. (p, c p)) ?keys) page g =
        sample_loop corpus d i (map (\<lambda>p. (p, ?c' p)) ?keys) ?next (rng_tail g)"
    unfolding sample_loop.simps get tm draw upd sum.case prod.case ..
  also note IH
  finally show ?case
    unfolding cnt by (simp add: funpow_swap1)
qed

lemma sum_list_count_list:
  assumes "distinct ks" "set xs \<subseteq> set ks"
  shows "(\<Sum>p\<leftarrow>ks. count_list xs p) = length xs"
  using assms by (simp add: sum_list_distinct_conv_sum_set sum_count_set)

lemma random_choice_start:
  assumes "corpus \<noteq> []" "wf_corpus corpus"
  shows "random_choice (dict_keys corpus) g = Inr (spec_start corpus g, rng_tail g)"
proof -
  have dk: "distinct (dict_keys corpus)" using assms(2) by (simp add: wf_corpus_def)
  show ?thesis
    using assms(1)
    by (simp add: random_choice_def spec_start_def card_spec_P[OF dk] dict_keys_def)
qed

lemma spec_start_mem:
  assumes "corpus \<noteq> []" "wf_corpus corpus" "wf_rng g"
  shows "spec_start corpus g \<in> set (dict_keys corpus)"
proof -
  have dk: "distinct (dict_keys corpus)" using assms(2) by (simp add: wf_corpus_def)
  let ?N = "of_nat (length corpus) :: rat"
  have g0: "0 \<le> g 0" "g 0 < 1" using assms(3) by (simp_all add: wf_rng_def)
  have N: "0 < ?N" using assms(1) by simp
  have "g 0 * ?N < ?N" using g0(2) N by simp
  then have "\<lfloor>g 0 * ?N\<rfloor> < int (length corpus)" by (simp add: floor_less_iff)
  moreover have "0 \<le> g 0 * ?N" using g0(1) N by simp
  then have "0 \<le> \<lfloor>g 0 * ?N\<rfloor>" by simp
  ultimately have "nat \<lfloor>g 0 * ?N\<rfloor> < length corpus"
    by linarith
  then have "nat \<lfloor>g 0 * ?N\<rfloor> < length (dict_keys corpus)"
    by (simp add: dict_keys_def)
  then show ?thesis
    unfolding spec_start_def card_spec_P[OF dk] by (rule nth_mem)
qed



lemma sample_pagerank_eq:
  assumes "wf_corpus corpus" "ref_inv corpus" "corpus \<noteq> []" "wf_rng g" "0 < n"
    and nonneg: "\<And>node q. node \<in> set (dict_keys corpus) \<Longrightarrow> q \<in> set (dict_keys corpus) \<Longrightarrow>
                 0 \<le> spec_distribution corpus d node q"
  shows "sample_pagerank corpus d n g =
         Inr (map (\<lambda>p. (p, of_nat (spec_visits corpus d g (nat n) p) / of_int n)) (dict_keys corpus),
              (rng_tail ^^ (Suc (nat n))) g)"
proof -
  let ?keys = "dict_keys corpus"
  have st: "random_choice ?keys g = Inr (spec_start corpus g, rng_tail g)"
    by (rule random_choice_start[OF assms(3,1)])
  have mem: "spec_start corpus g \<in> set ?keys" by (rule spec_start_mem[OF assms(3,1,4)])
  from sample_loop_eq[OF assms(1,2) nonneg mem, of "nat n" "\<lambda>p. 0" "rng_tail g"] obtain page' where
    loop: "sample_loop corpus d (nat n) (map (\<lambda>p. (p, 0)) ?keys) (spec_start corpus g) (rng_tail g) =
           Inr (map (\<lambda>p. (p, 0 + int (count_list (spec_path corpus d (spec_start corpus g) (rng_tail g) (nat n)) p))) ?keys,
                page', (rng_tail ^^ nat n) (rng_tail g))"
    by blast
  have n0: "n \<noteq> 0" using assms(5) by simp
  show ?thesis
    unfolding sample_pagerank_def Let_def st sum.case prod.case loop
    using n0 by (simp add: spec_visits_def comp_def funpow_swap1)
qed

lemma spec_visits_sum:
  assumes "wf_corpus corpus" "corpus \<noteq> []" "wf_rng g"
  shows "(\<Sum>p\<leftarrow>dict_keys corpus. spec_visits corpus d g n p) = n"
proof -
  have dk: "distinct (dict_keys corpus)" using assms(1) by (simp add: wf_corpus_def)
  have mem: "spec_start corpus g \<in> set (dict_keys corpus)" by (rule spec_start_mem[OF assms(2,1,3)])
  show ?thesis
    unfolding spec_visits_def
    using sum_list_count_list[OF dk spec_path_subset[OF mem]] by simp
qed




lemma normalized_idem:
  "normalized (normalized corpus) = normalized corpus"
proof (cases "corpus = []")
  case True
  then show ?thesis by (simp add: normalized_def)
next
  case False
  then have ne: "dict_keys corpus \<noteq> []" by (simp add: dict_keys_def)
  have "normalized (normalized corpus) =
        map (\<lambda>(page, links). (page, if links = [] then dict_keys corpus else links)) (normalized corpus)"
    unfolding normalized_def[of "normalized corpus"] dict_keys_normalized ..
  also have "\<dots> = map (\<lambda>e. e) (normalized corpus)"
    by (rule map_cong[OF refl]) (use ne in \<open>auto simp: normalized_def\<close>)
  finally show ?thesis by simp
qed

lemma sample_loop_prefix:
  "(\<And>j. j < i \<Longrightarrow> g j = g' j) \<Longrightarrow>
   map_sum id (\<lambda>(counts', page', _). (counts', page')) (sample_loop corpus d i counts page g) =
   map_sum id (\<lambda>(counts', page', _). (counts', page')) (sample_loop corpus d i counts page g')"
proof (induction i arbitrary: counts page g g')
  case 0
  then show ?case by simp
next
  case (Suc i)
  have g0: "g 0 = g' 0" using Suc.prems[of 0] by simp
  have tl: "\<And>j. j < i \<Longrightarrow> rng_tail g j = rng_tail g' j"
    using Suc.prems by (simp add: rng_tail_def)
  have rc: "random_choices ks ws g' = map_sum id (\<lambda>(q, _). (q, rng_tail g')) (random_choices ks ws g)"
    for ks :: "'a list" and ws
    by (simp add: random_choices_def Let_def g0)
  show ?case
  proof (cases "getitem counts page")
    case (Inl e)
    then show ?thesis by simp
  next
    case (Inr c)
    note c = this
    show ?thesis
    proof (cases "transition_model corpus page d")
      case (Inl e)
      then show ?thesis using c by simp
    next
      case (Inr probs)
      note probs = this
      show ?thesis
      proof (cases "random_choices (dict_keys probs) (dict_values probs) g")
        case (Inl e)
        then show ?thesis using c probs rc[of "dict_keys probs" "dict_values probs"] by simp
      next
        case (Inr res)
        obtain q g1 where res: "res = (q, g1)" by (cases res)
        have g1: "g1 = rng_tail g"
          using Inr res by (auto simp: random_choices_def Let_def split: if_splits)
        have r': "random_choices (dict_keys probs) (dict_values probs) g' = Inr (q, rng_tail g')"
          using rc[of "dict_keys probs" "dict_values probs"] Inr res by simp
        show ?thesis
          using c probs Inr res g1 r' Suc.IH[OF tl] by simp
      qed
    qed
  qed
qed

lemma sample_pagerank_prefix:
  assumes "\<And>j. j \<le> nat n \<Longrightarrow> g j = g' j"
  shows "map_sum id fst (sample_pagerank corpus d n g) =
         map_sum id fst (sample_pagerank corpus d n g')"
proof -
  let ?keys = "dict_keys corpus"
  let ?counts = "map (\<lambda>page. (page, 0::int)) ?keys"
  have g0: "g 0 = g' 0" using assms[of 0] by simp
  have tl: "\<And>j. j < nat n \<Longrightarrow> rng_tail g j = rng_tail g' j"
    using assms by (simp add: rng_tail_def)
  show ?thesis
  proof (cases "?keys = []")
    case True
    then show ?thesis by (simp add: sample_pagerank_def random_choice_def)
  next
    case False
    let ?page = "?keys ! nat \<lfloor>g 0 * of_nat (length ?keys)\<rfloor>"
    have st: "random_choice ?keys g = Inr (?page, rng_tail g)"
      using False by (simp add: random_choice_def)
    have st': "random_choice ?keys g' = Inr (?page, rng_tail g')"
      using False by (simp add: random_choice_def g0)
    from sample_loop_prefix[where i = "nat n" and g = "rng_tail g" and g' = "rng_tail g'"
        and corpus = corpus and d = d and counts = ?counts and page = ?page, OF tl]
    have loop: "map_sum id (\<lambda>(counts', page', _). (counts', page'))
                  (sample_loop corpus d (nat n) ?counts ?page (rng_tail g)) =
                map_sum id (\<lambda>(counts', page', _). (counts', page'))
                  (sample_loop corpus d (nat n) ?counts ?page (rng_tail g'))"
      by simp
    show ?thesis
      unfolding sample_pagerank_def Let_def st st' sum.case prod.case
      using loop
      by (cases "sample_loop corpus d (nat n) ?counts ?page (rng_tail g)";
          cases "sample_loop corpus d (nat n) ?counts ?page (rng_tail g')")
         (auto split: prod.splits)
  qed
qed





section \<open>Inputs outside the contract, and determinism\<close>








text \<open>
  Claim C8. The model is a function of its arguments, so a call on equal arguments gives
  equal results by construction; what is proved is what that leaves open. For the
  solver: the first call rewrites the caller's corpus, and a second call on the corpus
  as the first call left it returns the same rank dict and leaves the corpus as it is.
  For the estimator: the only other input is the generator, and two generators that
  deliver the same first \<open>n + 1\<close> variates give the same result (the same rank dict or the
  same failure) on every corpus, damping factor and \<open>n\<close>.
\<close>

theorem estimators_deterministic:
  "(wf_corpus corpus \<longrightarrow>
      (\<forall>r corpus'. iterate_pagerank corpus d = Some (Inr (r, corpus')) \<longrightarrow>
                   iterate_pagerank corpus' d = Some (Inr (r, corpus')))) \<and>
   ((\<forall>j \<le> nat n. g j = g' j) \<longrightarrow>
      map_sum id fst (sample_pagerank corpus d n g) =
      map_sum id fst (sample_pagerank corpus d n g'))"
proof (intro conjI impI allI)
  fix r corpus'
  assume wf: "wf_corpus corpus" and ret: "iterate_pagerank corpus d = Some (Inr (r, corpus'))"
  have dk: "distinct (dict_keys corpus)" using wf by (simp add: wf_corpus_def)
  have dn: "distinct (dict_keys (normalized corpus))" using dk by simp
  from iterate_pagerank_returns[OF dk ret]
  have c': "corpus' = normalized corpus"
    and r: "r = rank_dict (normalized corpus)
                  (iter_rank (normalized corpus) d (Suc (LEAST k. settled (normalized corpus) d k)))"
    and ex: "\<exists>k. settled (normalized corpus) d k"
    by simp_all
  show "iterate_pagerank corpus' d = Some (Inr (r, corpus'))"
    unfolding c' iterate_pagerank_eq[OF dn] normalized_idem r using ex by simp
next
  assume "\<forall>j \<le> nat n. g j = g' j"
  then show "map_sum id fst (sample_pagerank corpus d n g) =
             map_sum id fst (sample_pagerank corpus d n g')"
    by (intro sample_pagerank_prefix) simp
qed

theorem estimators_deterministic_witness:
  "wf_corpus [(''A'', [])] \<and>
   iterate_pagerank [(''A'', [])] (17 / 20) = Some (Inr ([(''A'', 1)], [(''A'', [''A''])])) \<and>
   iterate_pagerank [(''A'', [''A''])] (17 / 20) = Some (Inr ([(''A'', 1)], [(''A'', [''A''])])) \<and>
   map_sum id fst (sample_pagerank [(''A'', [''B'']), (''B'', [''A''])] (17 / 20) 2
                     (\<lambda>j. if j \<le> 2 then 1 / 4 else 0)) =
   map_sum id fst (sample_pagerank [(''A'', [''B'']), (''B'', [''A''])] (17 / 20) 2
                     (\<lambda>j. if j \<le> 2 then 1 / 4 else 1 / 2))"
proof -
  let ?c = "[(''A'', [])] :: string corpus"
  have wf: "wf_corpus ?c" by (simp add: wf_corpus_def dict_keys_def)
  have it: "iterate_pagerank ?c (17 / 20) = Some (Inr ([(''A'', 1)], [(''A'', [''A''])]))"
    by code_simp
  have pre: "\<forall>j \<le> nat 2. (if j \<le> 2 then 1 / 4 else 0 :: rat) = (if j \<le> 2 then 1 / 4 else 1 / 2)"
    by simp
  from estimators_deterministic[of ?c "17 / 20" 2 "\<lambda>j. if j \<le> 2 then 1 / 4 else 0"
      "\<lambda>j. if j \<le> 2 then 1 / 4 else 1 / 2"] wf it
  have a: "iterate_pagerank [(''A'', [''A''])] (17 / 20) = Some (Inr ([(''A'', 1)], [(''A'', [''A''])]))"
    by blast
  from estimators_deterministic[of "[(''A'', [''B'']), (''B'', [''A''])]" "17 / 20" 2
      "\<lambda>j. if j \<le> 2 then 1 / 4 else 0" "\<lambda>j. if j \<le> 2 then 1 / 4 else 1 / 2"] pre
  have b: "map_sum id fst (sample_pagerank [(''A'', [''B'']), (''B'', [''A''])] (17 / 20) 2
                     (\<lambda>j. if j \<le> 2 then 1 / 4 else 0)) =
   map_sum id fst (sample_pagerank [(''A'', [''B'']), (''B'', [''A''])] (17 / 20) 2
                     (\<lambda>j. if j \<le> 2 then 1 / 4 else 1 / 2))"
    by blast
  from wf it a b show ?thesis by (intro conjI)
qed

section \<open>The single page, and the shape of the results\<close>

lemma iterate_pagerank_single:
  "iterate_pagerank [(a, [])] d = Some (Inr ([(a, 1)], [(a, [a])]))"
proof -
  have n: "normalize_loop (dict_keys [(a, [])]) [(a, [])] = Inr [(a, [a])]"
    by (simp add: getitem_def)
  have sw: "sweep_loop [(a, [a])] d 1 [(a, 1)] (dict_keys [(a, [a])]) [] True = Inr ([(a, 1)], True)"
    by (simp add: getitem_def)
  have w: "while_loop [(a, [a])] d 1 [(a, 1)] False = Some (Inr [(a, 1)])"
    by (subst while_loop.simps) (simp only: sw sum.case prod.case not_False_eq_True if_True while_loop_True)
  show ?thesis
    unfolding iterate_pagerank_def Let_def n sum.case using w by simp
qed

lemma sample_pagerank_single:
  assumes "0 < n" "wf_rng g"
  shows "map_sum id fst (sample_pagerank [(a, [])] d n g) = Inr [(a, 1)]"
proof -
  let ?c = "[(a, [])] :: 'a corpus"
  have wf: "wf_corpus ?c" by (simp add: wf_corpus_def)
  have ri: "ref_inv ?c" by (simp add: ref_inv_def)
  have ne: "?c \<noteq> []" by simp
  have "(\<Sum>p\<leftarrow>dict_keys ?c. spec_visits ?c d g (nat n) p) = nat n"
    by (rule spec_visits_sum[OF wf ne assms(2)])
  then have v: "spec_visits ?c d g (nat n) a = nat n" by simp
  have "sample_pagerank ?c d n g =
        Inr (map (\<lambda>p. (p, of_nat (spec_visits ?c d g (nat n) p) / of_int n)) (dict_keys ?c),
             (rng_tail ^^ Suc (nat n)) g)"
    by (rule sample_pagerank_eq[OF wf ri ne assms(2,1)]) (simp add: spec_distribution_def spec_out_def)
  then show ?thesis using assms(1) by (simp add: v)
qed

text \<open>
  Claim C9. On the corpus of one page without links, \<^verbatim>\<open>sample_pagerank\<close> returns rank 1
  for the page, for every \<open>n > 0\<close>, every damping factor and every generator delivering
  variates of \<open>[0, 1)\<close>; and \<^verbatim>\<open>iterate_pagerank\<close> returns rank 1 for the page, for every
  damping factor (after one sweep, having rewritten the page's set to the page itself).
\<close>

theorem single_page_rank_one:
  assumes "0 < n" "wf_rng g"
  shows "map_sum id fst (sample_pagerank [(a, [])] d n g) = Inr [(a, 1)] \<and>
         iterate_pagerank [(a, [])] d' = Some (Inr ([(a, 1)], [(a, [a])]))"
  by (rule conjI[OF sample_pagerank_single[OF assms] iterate_pagerank_single])

theorem single_page_rank_one_witness:
  "(0 :: int) < 10000 \<and> wf_rng (\<lambda>i. if even i then 1 / 4 else 3 / 4) \<and>
   map_sum id fst (sample_pagerank [(''A'', [])] (17 / 20) 10000
                     (\<lambda>i. if even i then 1 / 4 else 3 / 4)) = Inr [(''A'', 1)] \<and>
   iterate_pagerank [(''A'', [])] (17 / 20) = Some (Inr ([(''A'', 1)], [(''A'', [''A''])]))"
proof -
  have n: "(0 :: int) < 10000" by simp
  have g: "wf_rng (\<lambda>i. if even i then 1 / 4 else 3 / 4)" by (simp add: wf_rng_def)
  from single_page_rank_one[OF n g, of "''A''" "17 / 20" "17 / 20"] n g
  show ?thesis by simp
qed






end
